theory Spec2Isabelle
  imports Complex_Main "HOL-Library.Product_Lexorder" "HOL-Library.Multiset"
begin

section \<open>Arrays, errors and the numpy operations used by eva.py\<close>

text \<open>
  The module \<^verbatim>\<open>welib/system/eva.py\<close> works on dense numpy arrays and calls the dense
  solver \<^verbatim>\<open>scipy.linalg.eig\<close>. Floating-point numbers are modelled by exact real and
  complex numbers; rounding, overflow and the dtype of an array are not modelled. A
  not-a-number entry is modelled only where the code writes one itself
  (\<^verbatim>\<open>np.NAN\<close> in \<^verbatim>\<open>eigMCK\<close>). Division by zero yields HOL's \<open>0\<close> where numpy would yield
  an infinity or a not-a-number; the theorems below that depend on a quotient assume a
  divisor different from zero.

  A two-dimensional array is its shape together with its entries; a one-dimensional
  array is a list.
\<close>

record mat =
  nr :: nat
  nc :: nat
  ent :: "nat \<Rightarrow> nat \<Rightarrow> complex"

text \<open>
  The exceptions of the module: \<^verbatim>\<open>raise Exception('...')\<close>, \<^verbatim>\<open>raise NotImplementedError()\<close>,
  the \<^verbatim>\<open>ValueError\<close> that numpy raises itself, and a failure of the dense solver.
\<close>

datatype error =
    Exception string
  | NotImplementedError
  | ValueError string
  | SolverError

definition bindE :: "error + 'a \<Rightarrow> ('a \<Rightarrow> error + 'b) \<Rightarrow> error + 'b" where
  "bindE r f = (case r of Inl e \<Rightarrow> Inl e | Inr x \<Rightarrow> f x)"

text \<open>
  \<^verbatim>\<open>scipy.linalg.eig(K)\<close> and \<^verbatim>\<open>scipy.linalg.eig(K, M)\<close> are not part of the repository:
  the solver is a parameter. It returns the eigenvalue vector and the matrix whose
  columns are the right eigenvectors, or fails.
\<close>

type_synonym solver = "mat \<Rightarrow> mat option \<Rightarrow> (complex list \<times> mat) option"

subsection \<open>Array constructors\<close>

definition np_zeros :: "int \<Rightarrow> int \<Rightarrow> error + mat" where
  "np_zeros r c =
     (if r < 0 \<or> c < 0 then Inl (ValueError ''negative dimensions are not allowed'')
      else Inr \<lparr>nr = nat r, nc = nat c, ent = (\<lambda>i j. 0)\<rparr>)"

definition np_eye :: "int \<Rightarrow> error + mat" where
  "np_eye k =
     (if k < 0 then Inl (ValueError ''negative dimensions are not allowed'')
      else Inr \<lparr>nr = nat k, nc = nat k, ent = (\<lambda>i j. if i = j then 1 else 0)\<rparr>)"

text \<open>Joining two blocks side by side and on top of each other, as \<^verbatim>\<open>np.block\<close> does.\<close>

definition hstack :: "mat \<Rightarrow> mat \<Rightarrow> mat" where
  "hstack A B =
     \<lparr>nr = nr A, nc = nc A + nc B,
      ent = (\<lambda>i j. if j < nc A then ent A i j else ent B i (j - nc A))\<rparr>"

definition vstack :: "mat \<Rightarrow> mat \<Rightarrow> mat" where
  "vstack A B =
     \<lparr>nr = nr A + nr B, nc = nc A,
      ent = (\<lambda>i j. if i < nr A then ent A i j else ent B (i - nr A) j)\<rparr>"

text \<open>\<^verbatim>\<open>np.column_stack\<close> concatenates along the columns and raises on an empty sequence.\<close>

definition np_column_stack :: "mat list \<Rightarrow> error + mat" where
  "np_column_stack As =
     (case As of
        [] \<Rightarrow> Inl (ValueError ''need at least one array to concatenate'')
      | B # Bs \<Rightarrow> Inr (fold (\<lambda>X acc. hstack acc X) Bs B))"

definition np_neg :: "mat \<Rightarrow> mat" where
  "np_neg A = A\<lparr>ent := (\<lambda>i j. - ent A i j)\<rparr>"

definition np_dot :: "mat \<Rightarrow> mat \<Rightarrow> mat" where
  "np_dot A B =
     \<lparr>nr = nr A, nc = nc B, ent = (\<lambda>i j. \<Sum>k<nc A. ent A i k * ent B k j)\<rparr>"

definition transposeM :: "mat \<Rightarrow> mat" where
  "transposeM A = \<lparr>nr = nc A, nc = nr A, ent = (\<lambda>i j. ent A j i)\<rparr>"

text \<open>\<^verbatim>\<open>np.diag\<close> of a matrix is its diagonal; \<^verbatim>\<open>np.diag\<close> of a vector is a diagonal matrix.\<close>

definition diag_of :: "mat \<Rightarrow> complex list" where
  "diag_of A = map (\<lambda>i. ent A i i) [0..<min (nr A) (nc A)]"

definition diag_mat :: "complex list \<Rightarrow> mat" where
  "diag_mat d =
     \<lparr>nr = length d, nc = length d, ent = (\<lambda>i j. if i = j then d ! i else 0)\<rparr>"

text \<open>\<^verbatim>\<open>Q[:,I]\<close> for an index list \<open>I\<close>, and \<^verbatim>\<open>X[:n,:]\<close>.\<close>

definition take_cols :: "mat \<Rightarrow> nat list \<Rightarrow> mat" where
  "take_cols Q I = \<lparr>nr = nr Q, nc = length I, ent = (\<lambda>i j. ent Q i (I ! j))\<rparr>"

definition take_rows :: "nat \<Rightarrow> mat \<Rightarrow> mat" where
  "take_rows n X = X\<lparr>nr := min n (nr X)\<rparr>"

text \<open>\<^verbatim>\<open>Q[:,j] = Q[:,j]/scale\<close>: one column divided by a scalar, in place.\<close>

definition scale_col :: "mat \<Rightarrow> nat \<Rightarrow> complex \<Rightarrow> mat" where
  "scale_col Q j s = Q\<lparr>ent := (\<lambda>i k. if k = j then ent Q i k / s else ent Q i k)\<rparr>"

text \<open>
  \<^verbatim>\<open>np.max\<close> and \<^verbatim>\<open>np.argmax\<close> (the first index of the maximum) of a one-dimensional real
  array. On an empty array numpy raises; the callers below raise before they reach it.
\<close>

fun np_max :: "real list \<Rightarrow> real" where
  "np_max [] = 0"
| "np_max (x # xs) = fold max xs x"

definition np_argmax :: "real list \<Rightarrow> nat" where
  "np_argmax xs = length (takeWhile (\<lambda>x. x < np_max xs) xs)"

definition col_abs :: "mat \<Rightarrow> nat \<Rightarrow> real list" where
  "col_abs Q j = map (\<lambda>i. cmod (ent Q i j)) [0..<nr Q]"

text \<open>
  \<^verbatim>\<open>np.argsort\<close>: the indices that sort the array. Real arrays are ordered as usual,
  complex arrays lexicographically by real and imaginary part, and a not-a-number
  (\<open>None\<close>) comes last. numpy's default sort is not stable, so the order of equal keys is
  unspecified there; the model breaks ties by position.
\<close>

definition np_argsort_real :: "real list \<Rightarrow> nat list" where
  "np_argsort_real xs = sort_key (\<lambda>i. xs ! i) [0..<length xs]"

definition ckey :: "complex \<Rightarrow> real \<times> real" where
  "ckey z = (Re z, Im z)"

definition np_argsort :: "complex list \<Rightarrow> nat list" where
  "np_argsort xs = sort_key (\<lambda>i. ckey (xs ! i)) [0..<length xs]"

section \<open>The generalized eigensolver \<^verbatim>\<open>eig\<close>\<close>

text \<open>
  \<^verbatim>\<open>modalmass_j = np.dot(q_j.T,M).dot(q_j)\<close> for the column \<open>q_j = Q[:,j]\<close>: the row vector
  \<open>q_j M\<close> first, then its product with \<open>q_j\<close>.
\<close>

definition modalmass :: "mat \<Rightarrow> mat \<Rightarrow> nat \<Rightarrow> complex" where
  "modalmass Q M j = (\<Sum>b<nc M. (\<Sum>a<nr M. ent Q a j * ent M a b) * ent Q b j)"

text \<open>
  \<^verbatim>\<open>Lambda\<close> is returned as a diagonal matrix, or as a vector of frequencies when
  \<^verbatim>\<open>freq_out\<close> is set.
\<close>

datatype lam = LamMat mat | LamVec "complex list"

text \<open>Lines 91 to 105: the branch of \<^verbatim>\<open>eig\<close> for a given mass matrix.\<close>

definition eig_mass :: "mat \<Rightarrow> mat \<Rightarrow> mat \<Rightarrow> bool \<Rightarrow> bool \<Rightarrow> mat \<times> lam" where
  "eig_mass K Mm Q0 freq_out srt =
     (let Q1 = fold (\<lambda>j Q. scale_col Q j (csqrt (modalmass Q Mm j))) [0..<nc Mm] Q0;
          Lambda = np_dot (np_dot (transposeM Q1) K) Q1;
          lambdaDiag = diag_of Lambda;
          I = np_argsort lambdaDiag;
          Q2 = (if srt then take_cols Q1 I else Q1);
          lambdaDiag2 = (if srt then map (\<lambda>i. lambdaDiag ! i) I else lambdaDiag)
      in (Q2, if freq_out then LamVec (map (\<lambda>x. csqrt x / (2 * pi)) lambdaDiag2)
              else LamMat (diag_mat lambdaDiag2)))"

text \<open>
  Lines 110 to 115: every column is divided by its entry at the index of the largest
  absolute value. \<^verbatim>\<open>np.argmax\<close> raises on a column without rows.
\<close>

definition byMax :: string where
  "byMax = ''byMax''"

definition renorm_signed :: "mat \<Rightarrow> error + mat" where
  "renorm_signed Q =
     (if nr Q = 0 \<and> 0 < nc Q
      then Inl (ValueError ''attempt to get argmax of an empty sequence'')
      else Inr (fold (\<lambda>j Q. scale_col Q j (ent Q (np_argmax (col_abs Q j)) j)) [0..<nc Q] Q))"

definition eig :: "solver \<Rightarrow> mat \<Rightarrow> mat option \<Rightarrow> bool \<Rightarrow> bool \<Rightarrow> string option
    \<Rightarrow> error + (mat \<times> lam)" where
  "eig linalg_eig K M freq_out srt normQ =
     (case linalg_eig K M of
        None \<Rightarrow> Inl SolverError
      | Some (D, Q0) \<Rightarrow>
          (let QL = (case M of
                       Some Mm \<Rightarrow> eig_mass K Mm Q0 freq_out srt
                     | None \<Rightarrow> (Q0, LamMat (diag_mat D)))
           in if normQ = Some byMax
              then bindE (renorm_signed (fst QL)) (\<lambda>Q. Inr (Q, snd QL))
              else Inr QL))"

section \<open>The state-matrix analysis \<^verbatim>\<open>eigA\<close>\<close>

text \<open>
  \<^verbatim>\<open>int((n-nq1)/2)\<close>: a true division followed by a truncation towards zero (exact for
  the sizes of arrays).
\<close>

definition py_int_half :: "int \<Rightarrow> int" where
  "py_int_half x = (if 0 \<le> x then x div 2 else - ((- x) div 2))"

definition dims_msg :: string where
  "dims_msg = ''Number of 1st and second order dofs should match the matrix shape (n= 2*nq + nq1''"

text \<open>Lines 144 to 151: the inference of \<open>nq\<close> and \<open>nq1\<close> and the check of the partition.\<close>

definition eigA_dims :: "int \<Rightarrow> int option \<Rightarrow> int option \<Rightarrow> error + (int \<times> int)" where
  "eigA_dims n nq nq1 =
     (let (nq', nq1') =
        (case nq of
           None \<Rightarrow> (let k = (case nq1 of None \<Rightarrow> 0 | Some k \<Rightarrow> k) in (py_int_half (n - k), k))
         | Some q \<Rightarrow> (q, n - 2 * q))
      in if n \<noteq> 2 * nq' + nq1' \<or> nq1' < 0 then Inl (Exception dims_msg)
         else Inr (nq', nq1'))"

text \<open>
  \<^verbatim>\<open>np.delete(Q, slice(a,b), axis=0)\<close>: the rows \<open>start \<le> i < stop\<close> are removed, where the
  bounds of the slice are clipped as Python clips them.
\<close>

definition py_slice_bound :: "int \<Rightarrow> nat \<Rightarrow> nat" where
  "py_slice_bound k len = (if k < 0 then nat (max 0 (k + int len)) else min (nat k) len)"

definition np_delete_rows :: "mat \<Rightarrow> int \<Rightarrow> int \<Rightarrow> mat" where
  "np_delete_rows Q a b =
     (let start = py_slice_bound a (nr Q);
          stop = py_slice_bound b (nr Q);
          keep = filter (\<lambda>i. \<not> (start \<le> i \<and> i < stop)) [0..<nr Q]
      in \<lparr>nr = length keep, nc = nc Q, ent = (\<lambda>i j. ent Q (keep ! i) j)\<rparr>)"

text \<open>
  Lines 177 to 181: every column is divided by its largest absolute value. \<^verbatim>\<open>np.max\<close>
  raises on a column without rows.
\<close>

definition renorm_abs :: "mat \<Rightarrow> error + mat" where
  "renorm_abs Q =
     (if nr Q = 0 \<and> 0 < nc Q
      then Inl (ValueError ''zero-size array to reduction operation maximum which has no identity'')
      else Inr (fold (\<lambda>j Q. scale_col Q j (of_real (np_max (col_abs Q j)))) [0..<nc Q] Q))"

text \<open>
  Lines 153 to 174: from the eigenvalues \<open>v0\<close> and the eigenvectors \<open>Q0\<close> to the sorted
  \<^verbatim>\<open>freq_d, zeta, Q, freq_0\<close>.
\<close>

definition eigA_modes :: "complex list \<Rightarrow> mat \<Rightarrow> int \<Rightarrow> bool
    \<Rightarrow> real list \<times> real list \<times> mat \<times> real list" where
  "eigA_modes v0 Q0 nq' fullEV =
     (let Q1 = (if \<not> fullEV then np_delete_rows Q0 nq' (2 * nq') else Q0);
          Ipos = filter (\<lambda>j. 0 < Im (v0 ! j)) [0..<length v0];
          Q2 = take_cols Q1 Ipos;
          v = map (\<lambda>j. v0 ! j) Ipos;
          omega_0 = map cmod v;
          freq_d = map (\<lambda>z. Im z / (2 * pi)) v;
          zeta = map2 (\<lambda>z w. - Re z / w) v omega_0;
          freq_0 = map (\<lambda>w. w / (2 * pi)) omega_0;
          I = np_argsort_real freq_0
      in (map (\<lambda>i. freq_d ! i) I, map (\<lambda>i. zeta ! i) I, take_cols Q2 I,
          map (\<lambda>i. freq_0 ! i) I))"

text \<open>
  \<^verbatim>\<open>eigA\<close> returns \<^verbatim>\<open>freq_d, zeta, Q, freq_0\<close>. The call \<^verbatim>\<open>eig(A, sort=False)\<close> has no mass
  matrix, so \<^verbatim>\<open>Lambda\<close> is a matrix; the branch for a vector is never taken.
\<close>

definition eigA :: "solver \<Rightarrow> mat \<Rightarrow> int option \<Rightarrow> int option \<Rightarrow> bool \<Rightarrow> string option
    \<Rightarrow> error + (real list \<times> real list \<times> mat \<times> real list)" where
  "eigA linalg_eig A nq nq1 fullEV normQ =
     (let n = nr A; m = nc A in
      if m \<noteq> n then Inl (Exception ''Matrix needs to be squared'')
      else bindE (eigA_dims (int n) nq nq1) (\<lambda>(nq', nq1').
           bindE (eig linalg_eig A None False False None) (\<lambda>(Q0, Lambda).
           case Lambda of
             LamVec _ \<Rightarrow> Inl (ValueError ''Lambda is not a matrix'')
           | LamMat L \<Rightarrow>
               (case eigA_modes (diag_of L) Q0 nq' fullEV of
                  (freq_d, zeta, Q, freq_0) \<Rightarrow>
                    if normQ = Some byMax
                    then bindE (renorm_abs Q) (\<lambda>Q'. Inr (freq_d, zeta, Q', freq_0))
                    else Inr (freq_d, zeta, Q, freq_0)))))"

section \<open>The polynomial eigenvalue solver \<^verbatim>\<open>polyeig\<close>\<close>

text \<open>
  Lines 40 to 44: the loop over the matrices stops at the first one that is not square
  or whose shape differs from the shape of the first.
\<close>

fun check_shapes :: "mat \<Rightarrow> mat list \<Rightarrow> error option" where
  "check_shapes A0 [] = None"
| "check_shapes A0 (Ai # As) =
     (if nr Ai \<noteq> nc Ai then Some (Exception ''Matrices must be square'')
      else if (nr Ai, nc Ai) \<noteq> (nr A0, nc A0)
      then Some (Exception ''All matrices must have the same shapes'')
      else check_shapes A0 As)"

text \<open>
  Lines 49 to 56: the two block matrices of the companion form. \<^verbatim>\<open>A[0:-1]\<close> is
  \<open>butlast A\<close> and \<^verbatim>\<open>A[-1]\<close> is \<open>last A\<close>. The blocks are built in the order in which
  Python evaluates them, so the first failing constructor decides the error.
\<close>

definition polyeig_C :: "mat list \<Rightarrow> int \<Rightarrow> int \<Rightarrow> error + mat" where
  "polyeig_C A n l =
     bindE (np_zeros (n * (l - 1)) n) (\<lambda>Z.
     bindE (np_eye (n * (l - 1))) (\<lambda>E.
     bindE (np_column_stack (butlast A)) (\<lambda>S.
     Inr (vstack (hstack Z E) (np_neg S)))))"

definition polyeig_D :: "mat list \<Rightarrow> int \<Rightarrow> int \<Rightarrow> error + mat" where
  "polyeig_D A n l =
     bindE (np_eye (n * (l - 1))) (\<lambda>E.
     bindE (np_zeros (n * (l - 1)) n) (\<lambda>Z.
     bindE (np_zeros n (n * (l - 1))) (\<lambda>Z'.
     Inr (vstack (hstack E Z) (hstack Z' (last A))))))"

text \<open>
  Line 70: every column is divided by its largest absolute value. \<^verbatim>\<open>np.max\<close> along the
  rows raises when there is no row but a column.
\<close>

definition scale_by_colmax :: "mat \<Rightarrow> error + mat" where
  "scale_by_colmax X =
     (if nr X = 0 \<and> 0 < nc X
      then Inl (ValueError ''zero-size array to reduction operation maximum which has no identity'')
      else Inr (X\<lparr>ent := (\<lambda>i j. ent X i j / of_real (np_max (col_abs X j)))\<rparr>))"

definition polyeig :: "solver \<Rightarrow> mat list \<Rightarrow> bool \<Rightarrow> error + (mat \<times> complex list)" where
  "polyeig linalg_eig A srt =
     (if length A \<le> 0 then Inl (Exception ''Provide at least one matrix'')
      else case check_shapes (A ! 0) A of
        Some err \<Rightarrow> Inl err
      | None \<Rightarrow>
         (let n = int (nr (A ! 0)); l = int (length A) - 1 in
          bindE (polyeig_C A n l) (\<lambda>C.
          bindE (polyeig_D A n l) (\<lambda>D.
          case linalg_eig C (Some D) of
            None \<Rightarrow> Inl SolverError
          | Some (e0, X0) \<Rightarrow>
             (let e1 = (if \<forall>z\<in>set e0. Im z = 0 then map (\<lambda>z. complex_of_real (Re z)) e0
                        else e0);
                  X1 = take_rows (nat n) X0;
                  I = np_argsort e1;
                  X2 = (if srt then take_cols X1 I else X1);
                  e2 = (if srt then map (\<lambda>i. e1 ! i) I else e1)
              in bindE (scale_by_colmax X2) (\<lambda>X3. Inr (X3, e2)))))))"

text \<open>
  The \<open>i\<close>-th entry of \<open>(A\<^sub>0 + \<lambda> A\<^sub>1 + \<dots> + \<lambda>\<^sup>p A\<^sub>p) x\<close> for the column \<open>x = X[:,j]\<close>.
\<close>

definition poly_residual :: "mat list \<Rightarrow> complex \<Rightarrow> mat \<Rightarrow> nat \<Rightarrow> nat \<Rightarrow> complex" where
  "poly_residual A lam X j i =
     (\<Sum>k<length A. lam ^ k * (\<Sum>c<nc (A ! k). ent (A ! k) i c * ent X c j))"

text \<open>
  What the dense solver promises for a pair \<open>(C, D)\<close>: as many eigenvalues as columns,
  columns as long as the matrices, every column \<open>v\<close> different from zero, and
  \<open>C v = w D v\<close> for each eigenvalue \<open>w\<close> and its column.
\<close>

definition gen_eigenpairs :: "mat \<Rightarrow> mat \<Rightarrow> complex list \<Rightarrow> mat \<Rightarrow> bool" where
  "gen_eigenpairs C D w V \<longleftrightarrow>
     length w = nc V \<and> nr V = nr C \<and>
     (\<forall>j<nc V. (\<exists>i<nr V. ent V i j \<noteq> 0) \<and>
        (\<forall>i<nr C. (\<Sum>c<nc C. ent C i c * ent V c j) = w ! j * (\<Sum>c<nc D. ent D i c * ent V c j)))"

section \<open>The mechanical-system analysis \<^verbatim>\<open>eigMCK\<close>\<close>

text \<open>
  The arrays \<^verbatim>\<open>freq_d\<close>, \<^verbatim>\<open>zeta\<close> and \<^verbatim>\<open>freq_0\<close> of \<^verbatim>\<open>eigMCK\<close> may hold the not-a-number that
  line 196 writes: an entry is \<open>None\<close> for a not-a-number and \<open>Some z\<close> for a number.
  Arithmetic on a not-a-number gives a not-a-number. \<^verbatim>\<open>np.sqrt\<close> is the principal
  complex square root; on a negative entry of a real array numpy gives a not-a-number
  instead, which is outside the model.
\<close>

type_synonym npval = "complex option"

text \<open>\<^verbatim>\<open>method.lower()\<close>, on ASCII letters.\<close>

definition lower_char :: "char \<Rightarrow> char" where
  "lower_char c =
     (case map_of (zip ''ABCDEFGHIJKLMNOPQRSTUVWXYZ'' ''abcdefghijklmnopqrstuvwxyz'') c of
        Some d \<Rightarrow> d
      | None \<Rightarrow> c)"

definition py_lower :: "string \<Rightarrow> string" where
  "py_lower = map lower_char"

text \<open>
  The order of \<^verbatim>\<open>np.argsort\<close> on an array with not-a-numbers: numbers first, in the
  lexicographic order of real and imaginary part, then the not-a-numbers.
\<close>

definition nkey :: "npval \<Rightarrow> bool \<times> real \<times> real" where
  "nkey x = (case x of None \<Rightarrow> (True, 0, 0) | Some z \<Rightarrow> (False, Re z, Im z))"

definition np_argsort_nan :: "npval list \<Rightarrow> nat list" where
  "np_argsort_nan xs = sort_key (\<lambda>i. nkey (xs ! i)) [0..<length xs]"

text \<open>
  Lines 192 to 198, the method \<^verbatim>\<open>diag_beta\<close>. \<^verbatim>\<open>xi > 2*np.pi\<close> compares as numpy compares
  complex numbers, which on real numbers is the usual order.
\<close>

definition eigMCK_diag_beta :: "solver \<Rightarrow> mat \<Rightarrow> mat \<Rightarrow> mat
    \<Rightarrow> error + (npval list \<times> npval list \<times> mat)" where
  "eigMCK_diag_beta linalg_eig M C K =
     bindE (eig linalg_eig K (Some M) False False None) (\<lambda>(Q, Lambda).
       case Lambda of
         LamVec _ \<Rightarrow> Inl (ValueError ''Lambda is not a matrix'')
       | LamMat L \<Rightarrow>
          (let freq_0 = map (\<lambda>x. csqrt x / (2 * pi)) (diag_of L);
               betaMat = np_dot (np_dot Q C) (transposeM Q);
               xi0 = map2 (\<lambda>b f. b * pi / (2 * pi * f)) (diag_of betaMat) freq_0;
               xi = map (\<lambda>x. if ckey (2 * pi) < ckey x then None else Some x) xi0;
               zeta = map (map_option (\<lambda>x. x / (2 * pi))) xi;
               freq_d = map2 (\<lambda>f z. map_option (\<lambda>z. f * csqrt (1 - z\<^sup>2)) z) freq_0 zeta
           in Inr (freq_d, zeta, Q)))"

text \<open>Lines 201 to 209, the method \<^verbatim>\<open>full_matrix\<close>.\<close>

definition eigMCK_full_matrix :: "solver \<Rightarrow> mat \<Rightarrow> mat \<Rightarrow> mat
    \<Rightarrow> error + (npval list \<times> npval list \<times> mat)" where
  "eigMCK_full_matrix linalg_eig M C K =
     bindE (polyeig linalg_eig [K, C, M] False) (\<lambda>(Q, e).
       let zeta = map (\<lambda>z. - Re z / cmod z) e;
           freq_d = map (\<lambda>z. Im z / (2 * pi)) e;
           bValid = filter (\<lambda>j. 1 / 10 ^ 8 < freq_d ! j) [0..<length freq_d]
       in Inr (map (\<lambda>j. Some (complex_of_real (freq_d ! j))) bValid,
               map (\<lambda>j. Some (complex_of_real (zeta ! j))) bValid,
               take_cols Q bValid))"

definition eigMCK :: "solver \<Rightarrow> mat \<Rightarrow> mat \<Rightarrow> mat \<Rightarrow> string \<Rightarrow> bool
    \<Rightarrow> error + (npval list \<times> npval list \<times> mat \<times> npval list)" where
  "eigMCK linalg_eig M C K method srt =
     bindE (if py_lower method = ''diag_beta'' then eigMCK_diag_beta linalg_eig M C K
            else if py_lower method = ''full_matrix'' then eigMCK_full_matrix linalg_eig M C K
            else Inl NotImplementedError)
       (\<lambda>(freq_d, zeta, Q).
          let I = np_argsort_nan freq_d;
              freq_d' = (if srt then map (\<lambda>i. freq_d ! i) I else freq_d);
              zeta' = (if srt then map (\<lambda>i. zeta ! i) I else zeta);
              Q' = (if srt then take_cols Q I else Q);
              freq_0 = map2 (\<lambda>f z. case (f, z) of
                                      (Some f, Some z) \<Rightarrow> Some (f / csqrt (1 - z\<^sup>2))
                                    | _ \<Rightarrow> None) freq_d' zeta'
          in Inr (freq_d', zeta', Q', freq_0))"

text \<open>The natural frequencies of a result of \<^verbatim>\<open>eigMCK\<close>, empty when it failed.\<close>

definition res_freq_0 :: "error + (npval list \<times> npval list \<times> mat \<times> npval list) \<Rightarrow> npval list" where
  "res_freq_0 r = (case r of Inl _ \<Rightarrow> [] | Inr (freq_d, zeta, Q, freq_0) \<Rightarrow> freq_0)"

text \<open>
  A system with two degrees of freedom: \<open>M = I\<close>, \<open>C = diag(8, 0)\<close>, \<open>K = diag(25, 16)\<close>. The
  roots of \<open>\<lambda>\<^sup>2 + 8 \<lambda> + 25\<close> are \<open>-4 \<plusminus> 3i\<close> and those of \<open>\<lambda>\<^sup>2 + 16\<close> are \<open>\<plusminus> 4i\<close>; the
  solver's answer on the companion pair has the eigenvectors \<open>(x, \<lambda> x)\<close>.
\<close>

definition K2 :: mat where
  "K2 = \<lparr>nr = 2, nc = 2, ent = (\<lambda>i j. if i = j then (if i = 0 then 25 else 16) else 0)\<rparr>"

definition C2 :: mat where
  "C2 = \<lparr>nr = 2, nc = 2, ent = (\<lambda>i j. if i = j then (if i = 0 then 8 else 0) else 0)\<rparr>"

definition w2 :: "complex list" where
  "w2 = [Complex (- 4) 3, Complex (- 4) (- 3), Complex 0 4, Complex 0 (- 4)]"

definition V2 :: mat where
  "V2 = \<lparr>nr = 4, nc = 4,
         ent = (\<lambda>i j. if j = 0 then [2, 0, Complex (- 8) 6, 0] ! i
                       else if j = 1 then [1, 0, Complex (- 4) (- 3), 0] ! i
                       else if j = 2 then [0, 1, 0, Complex 0 4] ! i
                       else [0, 1, 0, Complex 0 (- 4)] ! i)\<rparr>"

definition eig_mck :: solver where
  "eig_mck K M = Some (w2, V2)"

text \<open>A 5 by 5 state matrix of zeros, and the solver's answer on it.\<close>

definition zero5 :: mat where
  "zero5 = \<lparr>nr = 5, nc = 5, ent = (\<lambda>i j. 0)\<rparr>"

definition eig_zero5 :: solver where
  "eig_zero5 K M = Some (replicate 5 0, \<lparr>nr = 5, nc = 5, ent = (\<lambda>i j. if i = j then 1 else 0)\<rparr>)"

text \<open>A diagonal 2 by 2 matrix whose eigenvalues come out in descending order.\<close>

definition K31 :: mat where
  "K31 = \<lparr>nr = 2, nc = 2, ent = (\<lambda>i j. if i = j then (if i = 0 then 3 else 1) else 0)\<rparr>"

definition eye2 :: mat where
  "eye2 = \<lparr>nr = 2, nc = 2, ent = (\<lambda>i j. if i = j then 1 else 0)\<rparr>"

definition eig_K31 :: solver where
  "eig_K31 K M = Some ([3, 1], eye2)"

text \<open>
  The same system as a first-order state matrix \<open>[[0, I], [-K, -C]]\<close>, whose eigenpairs are
  those of the companion pair above, and with one more first-order state of
  eigenvalue \<open>-1\<close>.
\<close>

definition A4 :: mat where
  "A4 = \<lparr>nr = 4, nc = 4,
         ent = (\<lambda>i j. if i = 0 then [0, 0, 1, 0] ! j
                       else if i = 1 then [0, 0, 0, 1] ! j
                       else if i = 2 then [- 25, 0, - 8, 0] ! j
                       else [0, - 16, 0, 0] ! j)\<rparr>"

definition A5 :: mat where
  "A5 = \<lparr>nr = 5, nc = 5,
         ent = (\<lambda>i j. if i < 4 \<and> j < 4 then ent A4 i j
                       else if i = 4 \<and> j = 4 then - 1 else 0)\<rparr>"

definition eig_A5 :: solver where
  "eig_A5 K M =
     Some (w2 @ [- 1],
           \<lparr>nr = 5, nc = 5,
            ent = (\<lambda>i j. if i < 4 \<and> j < 4 then ent V2 i j
                          else if i = 4 \<and> j = 4 then 1 else 0)\<rparr>)"

section \<open>Basic facts\<close>

lemma bindE_Inl [simp]: "bindE (Inl e) f = Inl e"
  by (simp add: bindE_def)

lemma bindE_Inr [simp]: "bindE (Inr x) f = f x"
  by (simp add: bindE_def)

lemma bindE_eq_Inr: "bindE r f = Inr y \<longleftrightarrow> (\<exists>x. r = Inr x \<and> f x = Inr y)"
  by (cases r) simp_all

lemma diag_of_diag_mat [simp]: "diag_of (diag_mat d) = d"
  by (rule nth_equalityI) (simp_all add: diag_of_def diag_mat_def)

section \<open>\<^verbatim>\<open>eig\<close> without a mass matrix\<close>

lemma eig_None:
  "eig s K None fo srt nQ =
     (case s K None of
        None \<Rightarrow> Inl SolverError
      | Some (D, Q) \<Rightarrow>
          if nQ = Some byMax
          then bindE (renorm_signed Q) (\<lambda>Q'. Inr (Q', LamMat (diag_mat D)))
          else Inr (Q, LamMat (diag_mat D)))"
  unfolding eig_def by (cases "s K None") auto

text \<open>
  C10. Without a mass matrix the flags \<^verbatim>\<open>sort\<close> and \<^verbatim>\<open>freq_out\<close> have no effect on the
  result of \<^verbatim>\<open>eig\<close>, and whenever \<^verbatim>\<open>eig\<close> returns, \<^verbatim>\<open>Lambda\<close> is the diagonal matrix that
  carries the solver's eigenvalues in the solver's order: entry \<open>(i, i)\<close> is the
  \<open>i\<close>-th eigenvalue, every other entry is zero, and it is never a vector of
  frequencies. Without renormalization the eigenvectors are the solver's too.
\<close>

theorem eig_no_mass_ignores_sort_and_freq_out:
  "eig s K None fo srt nQ = eig s K None fo' srt' nQ \<and>
   (\<forall>D Q Q' L. s K None = Some (D, Q) \<longrightarrow> eig s K None fo srt nQ = Inr (Q', L) \<longrightarrow>
      L = LamMat (diag_mat D) \<and> nr (diag_mat D) = length D \<and> nc (diag_mat D) = length D \<and>
      (\<forall>i<length D. \<forall>j<length D. ent (diag_mat D) i j = (if i = j then D ! i else 0)) \<and>
      (nQ = None \<longrightarrow> Q' = Q))"
proof (intro conjI allI impI)
  show "eig s K None fo srt nQ = eig s K None fo' srt' nQ"
    by (simp only: eig_None)
next
  fix D Q Q' L
  assume s: "s K None = Some (D, Q)" and e: "eig s K None fo srt nQ = Inr (Q', L)"
  show "L = LamMat (diag_mat D)"
    using e unfolding eig_None s by (auto simp: bindE_eq_Inr split: if_splits)
  show "nQ = None \<Longrightarrow> Q' = Q"
    using e unfolding eig_None s by (simp split: if_splits)
  show "nr (diag_mat D) = length D" "nc (diag_mat D) = length D"
    by (simp_all add: diag_mat_def)
  fix i j assume "i < length D" "j < length D"
  show "ent (diag_mat D) i j = (if i = j then D ! i else 0)"
    by (simp add: diag_mat_def)
qed

theorem eig_no_mass_witness:
  "eig_K31 K31 None = Some ([3, 1], eye2) \<and>
   eig eig_K31 K31 None True True None = Inr (eye2, LamMat (diag_mat [3, 1])) \<and>
   eig eig_K31 K31 None True True None = eig eig_K31 K31 None False False None \<and>
   ent (diag_mat [3, 1]) 0 0 = 3 \<and> ent (diag_mat [3, 1]) 1 1 = 1"
  using eig_no_mass_ignores_sort_and_freq_out [of eig_K31 K31 True True None False False]
  by (simp add: eig_None eig_K31_def diag_mat_def)

section \<open>The dimension check of \<^verbatim>\<open>eigA\<close>\<close>

lemma renorm_abs_not_Exception: "renorm_abs Q \<noteq> Inl (Exception m)"
  by (simp add: renorm_abs_def)

lemma eig_None_not_Exception: "eig s K None fo srt None \<noteq> Inl (Exception m)"
  by (simp add: eig_None split: option.splits)

lemma eig_None_LamMat: "eig s K None fo srt nQ = Inr (Q, L) \<Longrightarrow> \<exists>Lm. L = LamMat Lm"
  by (auto simp: eig_None bindE_eq_Inr split: option.splits if_splits)

lemma eigA_after_dims:
  assumes "nr A = nc A" and "eigA_dims (int (nr A)) nq nq1 = Inr p"
  shows "eigA s A nq nq1 fullEV normQ \<noteq> Inl (Exception m)"
proof (cases "eig s A None False False None")
  case (Inl e)
  then have "e \<noteq> Exception m" using eig_None_not_Exception [of s A False False m] by auto
  with Inl assms show ?thesis by (simp add: eigA_def)
next
  case (Inr r)
  obtain Q L where r: "r = (Q, L)" by (cases r)
  with Inr obtain Lm where L: "L = LamMat Lm" using eig_None_LamMat by blast
  obtain fd z Q' f0 where m: "eigA_modes (diag_of Lm) Q (fst p) fullEV = (fd, z, Q', f0)"
    by (cases "eigA_modes (diag_of Lm) Q (fst p) fullEV") auto
  show ?thesis
    using assms Inr r L m renorm_abs_not_Exception [of Q' m]
    by (cases "renorm_abs Q'") (auto simp: eigA_def split: prod.splits)
qed

lemma eigA_dims_fail:
  assumes "nr A = nc A" and "eigA_dims (int (nr A)) nq nq1 = Inl e"
  shows "eigA s A nq nq1 fullEV normQ = Inl e"
  using assms by (simp add: eigA_def)

lemma eigA_dims_None:
  "eigA_dims n None nq1 =
     (let k = (case nq1 of None \<Rightarrow> 0 | Some k \<Rightarrow> k) in
      if k < 0 \<or> odd (n - k) then Inl (Exception dims_msg) else Inr (py_int_half (n - k), k))"
proof -
  have "n \<noteq> 2 * py_int_half (n - k) + k \<longleftrightarrow> odd (n - k)" for k
    unfolding py_int_half_def by presburger
  then show ?thesis by (auto simp: eigA_dims_def Let_def)
qed

lemma eigA_dims_Some:
  "eigA_dims n (Some q) nq1 =
     (if n < 2 * q then Inl (Exception dims_msg) else Inr (q, n - 2 * q))"
  by (auto simp: eigA_dims_def)

lemma eigA_dims_error_iff:
  assumes "nr A = nc A"
  shows "eigA s A nq nq1 fullEV normQ = Inl (Exception dims_msg) \<longleftrightarrow>
         eigA_dims (int (nr A)) nq nq1 = Inl (Exception dims_msg)"
proof (cases "eigA_dims (int (nr A)) nq nq1")
  case (Inl e)
  then show ?thesis using eigA_dims_fail [OF assms Inl] by simp
next
  case (Inr p)
  then show ?thesis using eigA_after_dims [OF assms Inr] by simp
qed

text \<open>
  C3, as amended. For a square state matrix of size \<open>n\<close>, \<^verbatim>\<open>eigA\<close> raises the dimension
  error exactly when the partition it infers is inconsistent. With \<^verbatim>\<open>nq\<close> omitted,
  \<^verbatim>\<open>nq1\<close> defaults to 0 and \<^verbatim>\<open>nq\<close> is \<open>(n - nq1) / 2\<close> truncated: the call fails if and only
  if \<^verbatim>\<open>nq1\<close> is negative or \<open>n - nq1\<close> is odd. With \<^verbatim>\<open>nq\<close> supplied and \<^verbatim>\<open>nq1\<close> omitted,
  \<^verbatim>\<open>nq1\<close> is inferred as \<open>n - 2 nq\<close>: the call fails if and only if \<open>2 nq > n\<close>.
\<close>

theorem eigA_dimension_error:
  assumes "nr A = nc A"
  shows "(eigA s A None nq1 fullEV normQ = Inl (Exception dims_msg) \<longleftrightarrow>
            (case nq1 of None \<Rightarrow> odd (nr A) | Some k \<Rightarrow> k < 0 \<or> odd (int (nr A) - k))) \<and>
         (eigA s A (Some q) None fullEV normQ = Inl (Exception dims_msg) \<longleftrightarrow>
            int (nr A) < 2 * q)"
  unfolding eigA_dims_error_iff [OF assms] eigA_dims_None eigA_dims_Some
  by (simp add: Let_def split: option.splits)

theorem eigA_dimension_error_witness:
  "nr zero5 = nc zero5 \<and>
   eigA eig_zero5 zero5 None None False None = Inl (Exception dims_msg) \<and>
   eigA eig_zero5 zero5 (Some 2) None False None \<noteq> Inl (Exception dims_msg) \<and>
   eigA eig_zero5 zero5 (Some 3) None False None = Inl (Exception dims_msg)"
  using eigA_dimension_error [of zero5 eig_zero5 None False None 2]
    eigA_dimension_error [of zero5 eig_zero5 None False None 3]
  by (simp add: zero5_def)

text \<open>
  C3, as stated, fails: on a 5 by 5 matrix with \<^verbatim>\<open>nq=2\<close> and \<^verbatim>\<open>nq1\<close> omitted the check
  infers \<^verbatim>\<open>nq1 = 1\<close> and passes, and \<^verbatim>\<open>eigA\<close> returns a result.
\<close>

theorem eigA_5x5_nq2_counterexample:
  "eigA_dims 5 (Some 2) None = Inr (2, 1) \<and>
   \<not> isl (eigA eig_zero5 zero5 (Some 2) None False None)"
  by (simp add: eigA_dims_Some eigA_def zero5_def eig_None eig_zero5_def
      split: prod.splits)

section \<open>\<^verbatim>\<open>polyeig\<close>: validation and companion form\<close>

lemma check_shapes_None:
  "check_shapes a As = None \<Longrightarrow> B \<in> set As \<Longrightarrow> nr B = nr a \<and> nc B = nc a \<and> nr B = nc B"
  by (induction As) (auto split: if_splits)

lemma polyeig_C_single: "\<exists>err. polyeig_C [a] (int n) 0 = Inl err"
  by (cases "n = 0") (simp_all add: polyeig_C_def np_zeros_def np_eye_def np_column_stack_def)

lemma polyeig_C_single_pos:
  "0 < n \<Longrightarrow> polyeig_C [a] (int n) 0 = Inl (ValueError ''negative dimensions are not allowed'')"
  by (simp add: polyeig_C_def np_zeros_def)

text \<open>
  C9. A call of \<^verbatim>\<open>polyeig\<close> with exactly one matrix never returns a result. The explicit
  checks let a single square matrix pass (only the empty sequence is rejected), and for
  a matrix with at least one row the assembly of the companion form then raises numpy's
  error for a negative dimension. A call that returns was given at least two matrices.
\<close>

theorem polyeig_single_matrix_fails:
  "(length A = 1 \<longrightarrow>
      (\<exists>err. polyeig s A srt = Inl err) \<and>
      (nr (A ! 0) = nc (A ! 0) \<longrightarrow> \<not> length A \<le> 0 \<and> check_shapes (A ! 0) A = None) \<and>
      (nr (A ! 0) = nc (A ! 0) \<and> 0 < nr (A ! 0) \<longrightarrow>
         polyeig s A srt = Inl (ValueError ''negative dimensions are not allowed''))) \<and>
   (\<forall>r. polyeig s A srt = Inr r \<longrightarrow> 2 \<le> length A)"
proof -
  have one: "(\<exists>err. polyeig s [a] srt = Inl err) \<and>
      (nr a = nc a \<longrightarrow> check_shapes a [a] = None) \<and>
      (nr a = nc a \<and> 0 < nr a \<longrightarrow>
         polyeig s [a] srt = Inl (ValueError ''negative dimensions are not allowed''))" for a
  proof (cases "nr a = nc a")
    case False
    then show ?thesis by (simp add: polyeig_def)
  next
    case True
    obtain err where "polyeig_C [a] (int (nr a)) 0 = Inl err"
      using polyeig_C_single by blast
    with True show ?thesis
      using polyeig_C_single_pos [of "nr a" a] by (auto simp: polyeig_def)
  qed
  have len1: "length A = 1 \<Longrightarrow> \<exists>a. A = [a]"
    by (cases A) auto
  have zero: "length A = 0 \<Longrightarrow> \<exists>err. polyeig s A srt = Inl err"
    by (simp add: polyeig_def)
  have fails1: "\<exists>err. polyeig s A srt = Inl err" if "length A = 1"
    using len1 [OF that] one by blast
  have two: "2 \<le> length A" if "polyeig s A srt = Inr r" for r
  proof (rule ccontr)
    assume "\<not> 2 \<le> length A"
    then consider "length A = 0" | "length A = 1" by linarith
    then have "\<exists>err. polyeig s A srt = Inl err"
      using zero fails1 by cases blast+
    with that show False by auto
  qed
  show ?thesis
  proof (cases "length A = 1")
    case False
    with two show ?thesis by blast
  next
    case True
    then obtain a where A: "A = [a]" using len1 by blast
    show ?thesis using one [of a] two unfolding A by auto
  qed
qed

lemma fold_hstack_snoc:
  "fold (\<lambda>X acc. hstack acc X) (Bs @ [X]) B0 = hstack (fold (\<lambda>X acc. hstack acc X) Bs B0) X"
  by simp

lemma fold_hstack_shape:
  assumes "\<forall>B\<in>set Bs. nc B = n" and "nc B0 = n"
  shows "nc (fold (\<lambda>X acc. hstack acc X) Bs B0) = n * Suc (length Bs) \<and>
         nr (fold (\<lambda>X acc. hstack acc X) Bs B0) = nr B0"
  using assms by (induction Bs rule: rev_induct) (simp_all add: hstack_def)

lemma fold_hstack_ent:
  assumes "\<forall>B\<in>set Bs. nc B = n" and "nc B0 = n" and "c < n * Suc (length Bs)"
  shows "ent (fold (\<lambda>X acc. hstack acc X) Bs B0) i c = ent ((B0 # Bs) ! (c div n)) i (c mod n)"
  using assms
proof (induction Bs arbitrary: c rule: rev_induct)
  case Nil
  then show ?case by simp
next
  case (snoc X Bs)
  let ?F = "fold (\<lambda>X acc. hstack acc X) Bs B0"
  have sh: "nc ?F = n * Suc (length Bs)"
    using fold_hstack_shape [of Bs n B0] snoc.prems by simp
  show ?case
  proof (cases "c < n * Suc (length Bs)")
    case True
    then have "0 < n" by (cases n) auto
    with True have d: "c div n < Suc (length Bs)"
      by (simp add: less_mult_imp_div_less mult.commute)
    have "ent ?F i c = ent ((B0 # Bs) ! (c div n)) i (c mod n)"
      using snoc.IH [of c] snoc.prems True by simp
    moreover have "(B0 # Bs @ [X]) ! (c div n) = (B0 # Bs) ! (c div n)"
      using d by (metis append_Cons length_Cons nth_append)
    ultimately show ?thesis using True sh by (simp add: hstack_def)
  next
    case False
    then have ge: "n * Suc (length Bs) \<le> c" by simp
    have lt: "c < n * Suc (Suc (length Bs))" using snoc.prems by simp
    have d: "c div n = Suc (length Bs)"
      using ge lt by (intro div_nat_eqI) (simp_all add: mult.commute)
    have m: "c mod n = c - n * Suc (length Bs)"
      using d by (metis minus_mult_div_eq_mod)
    have "(B0 # Bs @ [X]) ! Suc (length Bs) = X"
      by (metis append_Cons length_Cons nth_append_length)
    then show ?thesis using False sh d m by (simp add: hstack_def)
  qed
qed

lemma int_mult_nonneg: "\<not> int n * int m < 0"
  by (simp add: not_less)

lemma nat_int_mult: "nat (int n * int m) = n * m"
  by (simp add: nat_mult_distrib)

lemma polyeig_C_ent:
  assumes len: "length A = Suc (Suc m)"
    and sq: "\<forall>B\<in>set A. nr B = n \<and> nc B = n"
    and C: "polyeig_C A (int n) (int (length A) - 1) = Inr C"
  shows "nr C = n * Suc m" and "nc C = n * Suc m"
    and "r < n * Suc m \<Longrightarrow> c < n * Suc m \<Longrightarrow>
         ent C r c = (if r < n * m then (if c = r + n then 1 else 0)
                      else - ent (A ! (c div n)) (r - n * m) (c mod n))"
proof -
  have lb: "length (butlast A) = Suc m" using len by simp
  then obtain B Bs where bl: "butlast A = B # Bs" and lBs: "length Bs = m"
    by (cases "butlast A") auto
  have inA: "set (butlast A) \<subseteq> set A"
    by (metis in_set_butlastD subsetI)
  have sqB: "\<forall>X\<in>set Bs. nc X = n" and B: "nc B = n" "nr B = n"
    using sq inA bl by auto
  let ?S = "fold (\<lambda>X acc. hstack acc X) Bs B"
  let ?Z = "\<lparr>nr = n * m, nc = n, ent = (\<lambda>i j. 0)\<rparr>"
  let ?E = "\<lparr>nr = n * m, nc = n * m, ent = (\<lambda>i j. if i = j then 1 else (0::complex))\<rparr>"
  have z: "int n * (int (length A) - 1 - 1) = int (n * m)"
    using len by simp
  have Ceq: "C = vstack (hstack ?Z ?E) (np_neg ?S)"
    using C unfolding polyeig_C_def z
    by (simp add: np_zeros_def np_eye_def np_column_stack_def bl int_mult_nonneg nat_int_mult)
  have shS: "nc ?S = n * Suc m" "nr ?S = n"
    using fold_hstack_shape [OF sqB B(1)] lBs B by simp_all
  show "nr C = n * Suc m" "nc C = n * Suc m"
    using shS by (simp_all add: Ceq vstack_def hstack_def np_neg_def)
  assume r: "r < n * Suc m" and c: "c < n * Suc m"
  show "ent C r c = (if r < n * m then (if c = r + n then 1 else 0)
                      else - ent (A ! (c div n)) (r - n * m) (c mod n))"
  proof (cases "r < n * m")
    case True
    then show ?thesis by (auto simp: Ceq vstack_def hstack_def)
  next
    case False
    have "0 < n" using c by (cases n) auto
    then have d: "c div n < Suc m"
      using c by (simp add: less_mult_imp_div_less mult.commute)
    have "ent ?S i c = ent ((B # Bs) ! (c div n)) i (c mod n)" for i
      using fold_hstack_ent [OF sqB B(1)] c lBs by simp
    moreover have "(B # Bs) ! (c div n) = A ! (c div n)"
      using d lb bl by (metis nth_butlast)
    ultimately show ?thesis using False
      by (simp add: Ceq vstack_def hstack_def np_neg_def)
  qed
qed

lemma polyeig_D_ent:
  assumes len: "length A = Suc (Suc m)"
    and D: "polyeig_D A (int n) (int (length A) - 1) = Inr D"
  shows "nr D = n * Suc m" and "nc D = n * Suc m"
    and "ent D r c = (if r < n * m then (if c = r then 1 else 0)
                      else (if c < n * m then 0 else ent (last A) (r - n * m) (c - n * m)))"
proof -
  let ?Z = "\<lparr>nr = n * m, nc = n, ent = (\<lambda>i j. 0)\<rparr>"
  let ?Z' = "\<lparr>nr = n, nc = n * m, ent = (\<lambda>i j. 0)\<rparr>"
  let ?E = "\<lparr>nr = n * m, nc = n * m, ent = (\<lambda>i j. if i = j then 1 else (0::complex))\<rparr>"
  have z: "int n * (int (length A) - 1 - 1) = int (n * m)"
    using len by simp
  have Deq: "D = vstack (hstack ?E ?Z) (hstack ?Z' (last A))"
    using D unfolding polyeig_D_def z
    by (simp add: np_zeros_def np_eye_def int_mult_nonneg nat_int_mult)
  show "nr D = n * Suc m" "nc D = n * Suc m"
    by (simp_all add: Deq vstack_def hstack_def)
  show "ent D r c = (if r < n * m then (if c = r then 1 else 0)
                      else (if c < n * m then 0 else ent (last A) (r - n * m) (c - n * m)))"
    by (auto simp: Deq vstack_def hstack_def)
qed

lemma sum_blocks:
  fixes g :: "nat \<Rightarrow> complex"
  shows "(\<Sum>c<k * n. g c) = (\<Sum>a<k. \<Sum>j<n. g (a * n + j))"
proof -
  have "(\<Sum>c<k * n. g c) = (\<Sum>a<k. sum g {a * n..<a * n + n})"
    by (rule sum.nat_group [symmetric])
  also have "\<dots> = (\<Sum>a<k. \<Sum>j<n. g (a * n + j))"
  proof (rule sum.cong [OF refl])
    fix a
    have "sum g {0 + a * n..<n + a * n} = (\<Sum>j\<in>{0..<n}. g (j + a * n))"
      by (rule sum.shift_bounds_nat_ivl)
    then show "sum g {a * n..<a * n + n} = (\<Sum>j<n. g (a * n + j))"
      by (simp add: add.commute atLeast0LessThan)
  qed
  finally show ?thesis .
qed

lemma sum_tail_block:
  fixes g :: "nat \<Rightarrow> complex"
  shows "(\<Sum>c<a + n. if c < a then 0 else g (c - a)) = (\<Sum>j<n. g j)"
proof -
  let ?f = "\<lambda>c. if c < a then 0 else g (c - a)"
  have "(\<Sum>c<a + n. ?f c) = sum ?f {0..<a + n}"
    by (simp add: atLeast0LessThan)
  also have "\<dots> = (\<Sum>c\<in>{0..<a}. if c < a then 0 else g (c - a)) +
        (\<Sum>c\<in>{a..<a + n}. if c < a then 0 else g (c - a))"
    by (rule sum.atLeastLessThan_concat [symmetric]) simp_all
  also have "(\<Sum>c\<in>{0..<a}. if c < a then 0 else g (c - a)) = 0"
    by (rule sum.neutral) simp
  also have "(\<Sum>c\<in>{a..<a + n}. if c < a then 0 else g (c - a)) = (\<Sum>c\<in>{a..<a + n}. g (c - a))"
    by (rule sum.cong) auto
  also have "\<dots> = (\<Sum>j\<in>{0..<n}. g (j + a - a))"
    using sum.shift_bounds_nat_ivl [of "\<lambda>c. g (c - a)" 0 a n] by (simp add: add.commute)
  finally show ?thesis by (simp add: atLeast0LessThan)
qed

text \<open>The algebra behind the companion form, for one column \<open>v\<close> and its eigenvalue.\<close>

lemma companion_column:
  fixes v :: "nat \<Rightarrow> complex"
  assumes len: "length A = Suc (Suc m)"
    and sq: "\<forall>B\<in>set A. nr B = n \<and> nc B = n"
    and C: "polyeig_C A (int n) (int (length A) - 1) = Inr C"
    and D: "polyeig_D A (int n) (int (length A) - 1) = Inr D"
    and eq: "\<forall>r<n * Suc m. (\<Sum>c<n * Suc m. ent C r c * v c) = lam * (\<Sum>c<n * Suc m. ent D r c * v c)"
  shows chain: "k \<le> m \<Longrightarrow> j < n \<Longrightarrow> v (k * n + j) = lam ^ k * v j"
    and residual: "i < n \<Longrightarrow> (\<Sum>k<length A. lam ^ k * (\<Sum>c<n. ent (A ! k) i c * v c)) = 0"
proof -
  note Cent = polyeig_C_ent [OF len sq C]
  note Dent = polyeig_D_ent [OF len D]
  let ?N = "n * Suc m"
  have top: "v (r + n) = lam * v r" if r: "r < n * m" for r
  proof -
    have rN: "r < ?N" "r + n < ?N" using r by simp_all
    have "(\<Sum>c<?N. ent C r c * v c) = (\<Sum>c<?N. if c = r + n then v c else 0)"
      using r rN by (intro sum.cong) (simp_all add: Cent(3))
    also have "\<dots> = v (r + n)" using rN by simp
    finally have L: "(\<Sum>c<?N. ent C r c * v c) = v (r + n)" .
    have "(\<Sum>c<?N. ent D r c * v c) = (\<Sum>c<?N. if c = r then v c else 0)"
      using r by (intro sum.cong) (simp_all add: Dent(3))
    also have "\<dots> = v r" using rN by simp
    finally have R: "(\<Sum>c<?N. ent D r c * v c) = v r" .
    show ?thesis using eq rN(1) L R by simp
  qed
  show ch: "k \<le> m \<Longrightarrow> j < n \<Longrightarrow> v (k * n + j) = lam ^ k * v j" for k j
  proof (induction k)
    case 0
    then show ?case by simp
  next
    case (Suc k)
    then have "k * n + j < n * m"
    proof -
      have "k * n + j < k * n + n" using Suc.prems by simp
      also have "\<dots> = Suc k * n" by simp
      also have "\<dots> \<le> m * n" using Suc.prems by (intro mult_le_mono1) simp
      finally show ?thesis by (simp add: mult.commute)
    qed
    then have "v (k * n + j + n) = lam * v (k * n + j)" by (rule top)
    with Suc show ?case by (simp add: add.commute add.left_commute)
  qed
  assume i: "i < n"
  let ?r = "n * m + i"
  have rN: "?r < ?N" using i by simp
  have nr: "\<not> ?r < n * m" by simp
  have lastA: "last A = A ! Suc m"
    using len by (metis diff_Suc_1 last_conv_nth length_0_conv nat.distinct(1))
  have "(\<Sum>c<?N. ent C ?r c * v c) = (\<Sum>c<Suc m * n. - (ent (A ! (c div n)) i (c mod n) * v c))"
    using rN by (simp add: Cent(3) mult.commute)
  also have "\<dots> = (\<Sum>a<Suc m. \<Sum>j<n. - (ent (A ! ((a * n + j) div n)) i ((a * n + j) mod n) * v (a * n + j)))"
    by (rule sum_blocks)
  also have "\<dots> = (\<Sum>a<Suc m. \<Sum>j<n. - (ent (A ! a) i j * (lam ^ a * v j)))"
  proof (intro sum.cong refl)
    fix a j assume "a \<in> {..<Suc m}" "j \<in> {..<n}"
    then have a: "a \<le> m" and j: "j < n" by auto
    then have "(a * n + j) div n = a" "(a * n + j) mod n = j" by simp_all
    then show "- (ent (A ! ((a * n + j) div n)) i ((a * n + j) mod n) * v (a * n + j)) =
               - (ent (A ! a) i j * (lam ^ a * v j))"
      using ch [OF a j] by simp
  qed
  also have "\<dots> = - (\<Sum>a<Suc m. lam ^ a * (\<Sum>j<n. ent (A ! a) i j * v j))"
    by (simp add: sum_negf sum_distrib_left mult_ac)
  finally have L: "(\<Sum>c<?N. ent C ?r c * v c) = - (\<Sum>a<Suc m. lam ^ a * (\<Sum>j<n. ent (A ! a) i j * v j))" .
  have "(\<Sum>c<?N. ent D ?r c * v c) =
        (\<Sum>c<n * m + n. if c < n * m then 0 else ent (last A) i (c - n * m) * v (c - n * m + n * m))"
    by (intro sum.cong) (simp_all add: Dent(3))
  also have "\<dots> = (\<Sum>j<n. ent (last A) i j * v (j + n * m))"
    by (rule sum_tail_block)
  also have "\<dots> = (\<Sum>j<n. ent (last A) i j * (lam ^ m * v j))"
  proof (intro sum.cong refl)
    fix j assume "j \<in> {..<n}"
    then have "v (m * n + j) = lam ^ m * v j" using ch [of m j] by simp
    then show "ent (last A) i j * v (j + n * m) = ent (last A) i j * (lam ^ m * v j)"
      by (simp add: add.commute mult.commute)
  qed
  also have "\<dots> = lam ^ m * (\<Sum>j<n. ent (A ! Suc m) i j * v j)"
    by (simp add: sum_distrib_left mult_ac lastA)
  finally have R: "(\<Sum>c<?N. ent D ?r c * v c) = lam ^ m * (\<Sum>j<n. ent (A ! Suc m) i j * v j)" .
  have "(\<Sum>c<?N. ent C ?r c * v c) = lam * (\<Sum>c<?N. ent D ?r c * v c)"
    using eq rN by blast
  then have "- (\<Sum>a<Suc m. lam ^ a * (\<Sum>j<n. ent (A ! a) i j * v j)) =
        lam * (lam ^ m * (\<Sum>j<n. ent (A ! Suc m) i j * v j))"
    unfolding L R .
  then have "(\<Sum>a<Suc m. lam ^ a * (\<Sum>j<n. ent (A ! a) i j * v j)) +
        lam ^ Suc m * (\<Sum>j<n. ent (A ! Suc m) i j * v j) = 0"
    by (simp add: mult.assoc add_eq_0_iff)
  then show "(\<Sum>k<length A. lam ^ k * (\<Sum>c<n. ent (A ! k) i c * v c)) = 0"
    unfolding len by (subst sum.lessThan_Suc)
qed

lemma map_of_real_Re: "\<forall>z\<in>set e0. Im z = 0 \<Longrightarrow> map (\<lambda>z. complex_of_real (Re z)) e0 = e0"
  by (induction e0) (auto simp: complex_eq_iff)

lemma np_argsort_props:
  "set (np_argsort w) = {..<length w}" "length (np_argsort w) = length w"
  by (simp_all add: np_argsort_def atLeast0LessThan)

lemma np_max_Max: "xs \<noteq> [] \<Longrightarrow> np_max xs = Max (set xs)"
  using Max.set_eq_fold [of "hd xs" "tl xs"] by (cases xs) simp_all

lemma np_max_pos:
  assumes "x \<in> set xs" "0 < x"
  shows "0 < np_max xs"
proof -
  have "xs \<noteq> []" using assms by auto
  then have "np_max xs = Max (set xs)" by (rule np_max_Max)
  moreover have "x \<le> Max (set xs)" using assms by simp
  ultimately show ?thesis using assms by linarith
qed

lemma np_max_scale:
  assumes "xs \<noteq> []" "0 < c"
  shows "np_max (map (\<lambda>x. x / c) xs) = np_max xs / c"
proof -
  have "mono (\<lambda>x::real. x / c)"
    using assms by (auto simp: mono_def divide_right_mono)
  then have "(Max (set xs)) / c = Max ((\<lambda>x. x / c) ` set xs)"
    using assms by (intro mono_Max_commute) auto
  then show ?thesis using assms by (simp add: np_max_Max)
qed

lemma polyeig_Inr:
  assumes run: "polyeig s A srt = Inr (X, e)"
  obtains C D w V where
    "check_shapes (A ! 0) A = None"
    "polyeig_C A (int (nr (A ! 0))) (int (length A) - 1) = Inr C"
    "polyeig_D A (int (nr (A ! 0))) (int (length A) - 1) = Inr D"
    "s C (Some D) = Some (w, V)"
    "e = (if srt then map (\<lambda>i. w ! i) (np_argsort w) else w)"
    "scale_by_colmax (if srt then take_cols (take_rows (nr (A ! 0)) V) (np_argsort w)
                      else take_rows (nr (A ! 0)) V) = Inr X"
proof -
  have nz: "\<not> length A \<le> 0" using run by (auto simp: polyeig_def)
  have cs: "check_shapes (A ! 0) A = None"
    using run nz by (auto simp: polyeig_def split: option.splits)
  let ?n = "int (nr (A ! 0))" and ?l = "int (length A) - 1"
  obtain C where C: "polyeig_C A ?n ?l = Inr C"
    using run nz cs by (cases "polyeig_C A ?n ?l") (auto simp: polyeig_def)
  obtain D where D: "polyeig_D A ?n ?l = Inr D"
    using run nz cs C by (cases "polyeig_D A ?n ?l") (auto simp: polyeig_def)
  obtain w V where sv: "s C (Some D) = Some (w, V)"
    using run nz cs C D by (cases "s C (Some D)") (auto simp: polyeig_def)
  have e1: "(if \<forall>z\<in>set w. Im z = 0 then map (\<lambda>z. complex_of_real (Re z)) w else w) = w"
    using map_of_real_Re by auto
  have "polyeig s A srt =
        bindE (scale_by_colmax (if srt then take_cols (take_rows (nr (A ! 0)) V) (np_argsort w)
                      else take_rows (nr (A ! 0)) V))
          (\<lambda>X3. Inr (X3, if srt then map (\<lambda>i. w ! i) (np_argsort w) else w))"
    unfolding polyeig_def Let_def using nz cs C D sv by (simp add: e1)
  with run have "bindE (scale_by_colmax (if srt then take_cols (take_rows (nr (A ! 0)) V) (np_argsort w)
                      else take_rows (nr (A ! 0)) V))
          (\<lambda>X3. Inr (X3, if srt then map (\<lambda>i. w ! i) (np_argsort w) else w)) = Inr (X, e)"
    by simp
  then have "e = (if srt then map (\<lambda>i. w ! i) (np_argsort w) else w)"
    and "scale_by_colmax (if srt then take_cols (take_rows (nr (A ! 0)) V) (np_argsort w)
                      else take_rows (nr (A ! 0)) V) = Inr X"
    by (auto simp: bindE_eq_Inr)
  with cs C D sv show thesis using that by blast
qed

lemma scale_by_colmax_Inr:
  assumes "scale_by_colmax X2 = Inr X"
  shows "nr X = nr X2" "nc X = nc X2"
    "ent X i j = ent X2 i j / of_real (np_max (col_abs X2 j))"
  using assms by (auto simp: scale_by_colmax_def split: if_splits)

lemma polyeig_needs_two:
  assumes "A \<noteq> []" and "polyeig_C A (int n) (int (length A) - 1) = Inr C"
  shows "\<exists>m. length A = Suc (Suc m)"
proof (cases A)
  case Nil
  with assms show ?thesis by simp
next
  case (Cons a As)
  show ?thesis
  proof (cases As)
    case Nil
    with Cons assms polyeig_C_single [of a n] show ?thesis by auto
  next
    case (Cons b Bs)
    with \<open>A = a # As\<close> show ?thesis by simp
  qed
qed

lemma col_abs_scaled:
  assumes "0 < mx"
  shows "map (\<lambda>i. cmod (v i / complex_of_real mx)) [0..<n] = map (\<lambda>x. x / mx) (map (\<lambda>i. cmod (v i)) [0..<n])"
  using assms by (simp add: norm_divide)

text \<open>
  C1. Whenever \<^verbatim>\<open>polyeig\<close> returns \<open>(X, e)\<close> for matrices \<open>A\<^sub>0, \<dots>, A\<^sub>p\<close> and the dense solver
  returned eigenpairs of the companion pair, there are at least two matrices, \<open>X\<close> has
  as many rows as the matrices and one column per eigenvalue, and every returned pair
  satisfies \<open>(A\<^sub>0 + \<lambda> A\<^sub>1 + \<dots> + \<lambda>\<^sup>p A\<^sub>p) x = 0\<close> in every row, where the column \<open>x\<close> is the
  first \<open>n\<close> rows of the solver's companion eigenvector divided by the largest absolute
  value among them (which is positive), so that the largest absolute value in \<open>x\<close> is 1.
\<close>

theorem polyeig_solves_polynomial:
  assumes run: "polyeig s A srt = Inr (X, e)"
    and contract: "\<forall>C D w V. polyeig_C A (int (nr (A ! 0))) (int (length A) - 1) = Inr C \<longrightarrow>
        polyeig_D A (int (nr (A ! 0))) (int (length A) - 1) = Inr D \<longrightarrow>
        s C (Some D) = Some (w, V) \<longrightarrow> gen_eigenpairs C D w V"
  shows "2 \<le> length A \<and> nr X = nr (A ! 0) \<and> nc X = length e \<and>
     (\<forall>j<length e. (\<forall>i<nr (A ! 0). poly_residual A (e ! j) X j i = 0) \<and>
                    np_max (col_abs X j) = 1) \<and>
     (\<exists>C D w V I.
        polyeig_C A (int (nr (A ! 0))) (int (length A) - 1) = Inr C \<and>
        polyeig_D A (int (nr (A ! 0))) (int (length A) - 1) = Inr D \<and>
        s C (Some D) = Some (w, V) \<and> length I = length e \<and>
        (\<forall>j<length e. I ! j < length w \<and> e ! j = w ! (I ! j) \<and>
           0 < np_max (map (\<lambda>i. cmod (ent V i (I ! j))) [0..<nr (A ! 0)]) \<and>
           (\<forall>i<nr (A ! 0). ent X i j =
              ent V i (I ! j) /
              of_real (np_max (map (\<lambda>i. cmod (ent V i (I ! j))) [0..<nr (A ! 0)])))))"
proof -
  let ?n = "nr (A ! 0)"
  obtain C D w V where cs: "check_shapes (A ! 0) A = None"
    and C: "polyeig_C A (int ?n) (int (length A) - 1) = Inr C"
    and D: "polyeig_D A (int ?n) (int (length A) - 1) = Inr D"
    and sv: "s C (Some D) = Some (w, V)"
    and e: "e = (if srt then map (\<lambda>i. w ! i) (np_argsort w) else w)"
    and sc: "scale_by_colmax (if srt then take_cols (take_rows ?n V) (np_argsort w)
                              else take_rows ?n V) = Inr X"
    using polyeig_Inr [OF run] by blast
  have ne: "A \<noteq> []" using run by (auto simp: polyeig_def)
  then obtain m where len: "length A = Suc (Suc m)"
    using polyeig_needs_two [OF _ C] by blast
  have "A ! 0 \<in> set A" using ne by simp
  then have sq: "\<forall>B\<in>set A. nr B = ?n \<and> nc B = ?n"
    using check_shapes_None [OF cs] by metis
  have gen: "gen_eigenpairs C D w V" using contract C D sv by blast
  note Csh = polyeig_C_ent(1,2) [OF len sq C]
  note Dsh = polyeig_D_ent(1,2) [OF len D]
  have lw: "length w = nc V" and rV: "nr V = ?n * Suc m"
    using gen Csh by (simp_all add: gen_eigenpairs_def)
  define I where "I = (if srt then np_argsort w else [0..<length w])"
  define X2 where "X2 = (if srt then take_cols (take_rows ?n V) (np_argsort w) else take_rows ?n V)"
  have lI: "length I = length e"
    by (simp add: I_def e np_argsort_props)
  have Ilt: "I ! j < length w" if "j < length e" for j
  proof (cases srt)
    case True
    then have "I ! j \<in> set (np_argsort w)" using that lI by (simp add: I_def)
    then show ?thesis by (simp add: np_argsort_props)
  next
    case False
    then show ?thesis using that by (simp add: I_def e)
  qed
  have eI: "e ! j = w ! (I ! j)" if "j < length e" for j
    using that by (cases srt) (simp_all add: I_def e np_argsort_props)
  have X2sh: "nr X2 = ?n" "nc X2 = length e"
    using rV lw by (simp_all add: X2_def take_cols_def take_rows_def e np_argsort_props)
  have X2ent: "ent X2 i j = ent V i (I ! j)" if "j < length e" for i j
    using that by (cases srt) (simp_all add: X2_def I_def take_cols_def take_rows_def e)
  have Xsh: "nr X = ?n" "nc X = length e"
    using scale_by_colmax_Inr(1,2) [OF sc [folded X2_def]] X2sh by simp_all
  have Xent: "ent X i j = ent X2 i j / of_real (np_max (col_abs X2 j))" for i j
    using scale_by_colmax_Inr(3) [OF sc [folded X2_def]] .
  have per_col: "(\<forall>i<?n. poly_residual A (e ! j) X j i = 0) \<and> np_max (col_abs X j) = 1 \<and>
      0 < np_max (map (\<lambda>i. cmod (ent V i (I ! j))) [0..<?n]) \<and>
      (\<forall>i<?n. ent X i j = ent V i (I ! j) /
              of_real (np_max (map (\<lambda>i. cmod (ent V i (I ! j))) [0..<?n])))"
    if j: "j < length e" for j
  proof -
    define c where "c = I ! j"
    define v where "v = (\<lambda>r. ent V r c)"
    define lam where "lam = w ! c"
    define mx where "mx = np_max (map (\<lambda>i. cmod (v i)) [0..<?n])"
    have cV: "c < nc V" using Ilt [OF j] lw by (simp add: c_def)
    have eq: "\<forall>r<?n * Suc m. (\<Sum>c'<?n * Suc m. ent C r c' * v c') =
                 lam * (\<Sum>c'<?n * Suc m. ent D r c' * v c')"
      using gen cV Csh Dsh by (simp add: gen_eigenpairs_def v_def lam_def)
    note chain = companion_column(1) [OF len sq C D eq]
    note resid = companion_column(2) [OF len sq C D eq]
    obtain r where r: "r < ?n * Suc m" "v r \<noteq> 0"
      using gen cV rV by (auto simp: gen_eigenpairs_def v_def)
    have npos: "0 < ?n" using r(1) by (cases ?n) auto
    have "r div ?n \<le> m"
      using r(1) npos by (simp add: less_mult_imp_div_less mult.commute flip: less_Suc_eq_le)
    moreover have "r mod ?n < ?n" using npos by simp
    ultimately have "v (r div ?n * ?n + r mod ?n) = lam ^ (r div ?n) * v (r mod ?n)"
      by (rule chain)
    then have "v (r mod ?n) \<noteq> 0" using r(2) by auto
    then have "cmod (v (r mod ?n)) \<in> set (map (\<lambda>i. cmod (v i)) [0..<?n])" "0 < cmod (v (r mod ?n))"
      using npos by auto
    then have mxpos: "0 < mx" unfolding mx_def by (rule np_max_pos)
    have ca: "col_abs X2 j = map (\<lambda>i. cmod (v i)) [0..<?n]"
      using X2ent [OF j] X2sh by (simp add: col_abs_def v_def c_def)
    have Xv: "ent X i j = v i / of_real mx" for i
      using Xent [of i j] X2ent [OF j, of i] by (simp add: ca mx_def v_def c_def)
    have res: "poly_residual A (e ! j) X j i = 0" if i: "i < ?n" for i
    proof -
      have "poly_residual A (e ! j) X j i =
            (\<Sum>k<length A. lam ^ k * (\<Sum>c'<?n. ent (A ! k) i c' * (v c' / of_real mx)))"
        unfolding poly_residual_def using sq eI [OF j]
        by (intro sum.cong refl) (simp add: Xv lam_def c_def)
      also have "\<dots> = (\<Sum>k<length A. lam ^ k * (\<Sum>c'<?n. ent (A ! k) i c' * v c')) / of_real mx"
        by (simp add: sum_divide_distrib sum_distrib_left)
      also have "\<dots> = 0" using resid [OF i] by simp
      finally show ?thesis .
    qed
    have "col_abs X j = map (\<lambda>i. cmod (v i / of_real mx)) [0..<?n]"
      using Xsh by (simp add: col_abs_def Xv)
    also have "\<dots> = map (\<lambda>x. x / mx) (map (\<lambda>i. cmod (v i)) [0..<?n])"
      using mxpos by (rule col_abs_scaled)
    finally have "np_max (col_abs X j) = mx / mx"
      using np_max_scale [of "map (\<lambda>i. cmod (v i)) [0..<?n]" mx] mxpos npos
      by (simp add: mx_def)
    then have one: "np_max (col_abs X j) = 1" using mxpos by simp
    show ?thesis
      using res one mxpos Xv by (simp add: mx_def v_def c_def)
  qed
  have "2 \<le> length A" using len by simp
  moreover have "\<exists>C D w V I.
        polyeig_C A (int ?n) (int (length A) - 1) = Inr C \<and>
        polyeig_D A (int ?n) (int (length A) - 1) = Inr D \<and>
        s C (Some D) = Some (w, V) \<and> length I = length e \<and>
        (\<forall>j<length e. I ! j < length w \<and> e ! j = w ! (I ! j) \<and>
           0 < np_max (map (\<lambda>i. cmod (ent V i (I ! j))) [0..<?n]) \<and>
           (\<forall>i<?n. ent X i j =
              ent V i (I ! j) /
              of_real (np_max (map (\<lambda>i. cmod (ent V i (I ! j))) [0..<?n]))))"
    using C D sv lI Ilt eI per_col by blast
  ultimately show ?thesis using Xsh per_col by blast
qed

section \<open>A worked system with two degrees of freedom\<close>

lemma sum4: "(\<Sum>c<4. (f c :: complex)) = f 0 + f 1 + f 2 + f (3::nat)"
  by (simp add: eval_nat_numeral)

lemma sum2: "(\<Sum>c<2. (f c :: complex)) = f 0 + f (1::nat)"
  by (simp add: eval_nat_numeral)

lemma all4: "(\<forall>j<4. P j) \<longleftrightarrow> P 0 \<and> P 1 \<and> P 2 \<and> P (3::nat)"
  by (simp add: eval_nat_numeral All_less_Suc conj_ac)

lemma ex4: "(\<exists>j<4. P j) \<longleftrightarrow> P 0 \<or> P 1 \<or> P 2 \<or> P (3::nat)"
  by (auto simp: eval_nat_numeral less_Suc_eq)

lemma mck_C:
  assumes "polyeig_C [K2, C2, eye2] 2 2 = Inr C"
  shows "nr C = 4" "nc C = 4"
    "ent C 0 = (\<lambda>c. if c = 2 then 1 else 0)"
    "ent C (Suc 0) = (\<lambda>c. if c = 3 then 1 else 0)"
    "ent C 2 = (\<lambda>c. if c = 0 then - 25 else if c = 2 then - 8 else 0)"
    "ent C 3 = (\<lambda>c. if c = 1 then - 16 else 0)"
  using assms
  by (auto simp: polyeig_C_def np_zeros_def np_eye_def np_column_stack_def vstack_def
      hstack_def np_neg_def K2_def C2_def eye2_def fun_eq_iff)

lemma mck_D:
  assumes "polyeig_D [K2, C2, eye2] 2 2 = Inr D"
  shows "nr D = 4" "nc D = 4" "i < 4 \<Longrightarrow> ent D i = (\<lambda>c. if c = i then 1 else 0)"
  using assms
  by (auto simp: polyeig_D_def np_zeros_def np_eye_def vstack_def
      hstack_def eye2_def fun_eq_iff)

lemma eig_mck_pairs:
  assumes C: "polyeig_C [K2, C2, eye2] 2 2 = Inr C"
    and D: "polyeig_D [K2, C2, eye2] 2 2 = Inr D"
  shows "gen_eigenpairs C D w2 V2"
  unfolding gen_eigenpairs_def mck_C(1,2) [OF C] mck_D(1,2) [OF D]
  by (simp add: all4 ex4 sum4 mck_C [OF C] mck_D [OF D] w2_def V2_def complex_eq_iff)

lemma mck_polyeig_run:
  "\<exists>X. polyeig eig_mck [K2, C2, eye2] False = Inr (X, w2) \<and> nr X = 2 \<and> nc X = 4 \<and>
       ent X 0 0 = 1 \<and> ent X 1 0 = 0 \<and> ent X 0 2 = 0 \<and> ent X 1 2 = 1"
  by (simp add: polyeig_def polyeig_C_def polyeig_D_def np_zeros_def np_eye_def
      np_column_stack_def K2_def C2_def eye2_def eig_mck_def scale_by_colmax_def
      take_rows_def w2_def V2_def col_abs_def upt_rec)

theorem polyeig_solves_polynomial_witness:
  "\<exists>X e. polyeig eig_mck [K2, C2, eye2] False = Inr (X, e) \<and> e = w2 \<and> nr X = 2 \<and> nc X = 4 \<and>
     (\<forall>j<4. (\<forall>i<2. poly_residual [K2, C2, eye2] (w2 ! j) X j i = 0) \<and>
             np_max (col_abs X j) = 1)"
proof -
  obtain X where run: "polyeig eig_mck [K2, C2, eye2] False = Inr (X, w2)"
    using mck_polyeig_run by blast
  have n: "nr ([K2, C2, eye2] ! 0) = 2" by (simp add: K2_def)
  have contract: "\<forall>C D w V.
      polyeig_C [K2, C2, eye2] (int (nr ([K2, C2, eye2] ! 0))) (int (length [K2, C2, eye2]) - 1) = Inr C \<longrightarrow>
      polyeig_D [K2, C2, eye2] (int (nr ([K2, C2, eye2] ! 0))) (int (length [K2, C2, eye2]) - 1) = Inr D \<longrightarrow>
      eig_mck C (Some D) = Some (w, V) \<longrightarrow> gen_eigenpairs C D w V"
    unfolding n using eig_mck_pairs by (simp add: eig_mck_def)
  have "length w2 = 4" by (simp add: w2_def)
  with polyeig_solves_polynomial [OF run contract] run n show ?thesis by simp
qed

theorem polyeig_single_matrix_fails_witness:
  "length [K2] = 1 \<and>
   polyeig eig_mck [K2] False = Inl (ValueError ''negative dimensions are not allowed'') \<and>
   (\<exists>r. polyeig eig_mck [K2, C2, eye2] False = Inr r) \<and> 2 \<le> length [K2, C2, eye2]"
  using polyeig_single_matrix_fails [of "[K2]" eig_mck False]
    polyeig_single_matrix_fails [of "[K2, C2, eye2]" eig_mck False] mck_polyeig_run
  by (auto simp: K2_def)

section \<open>Scaling columns, maxima and sorting\<close>

lemma fold_scale_cols:
  assumes dep: "\<And>Q Q' j. (\<forall>i. ent Q i j = ent Q' i j) \<Longrightarrow> nr Q = nr Q' \<Longrightarrow> f Q j = f Q' j"
    and "distinct js"
  shows "nr (fold (\<lambda>j Q. scale_col Q j (f Q j)) js Q) = nr Q \<and>
         nc (fold (\<lambda>j Q. scale_col Q j (f Q j)) js Q) = nc Q \<and>
         (\<forall>i k. ent (fold (\<lambda>j Q. scale_col Q j (f Q j)) js Q) i k =
                 (if k \<in> set js then ent Q i k / f Q k else ent Q i k))"
  using assms(2)
proof (induction js arbitrary: Q)
  case Nil
  then show ?case by simp
next
  case (Cons j js)
  let ?Q1 = "scale_col Q j (f Q j)"
  have sh: "nr ?Q1 = nr Q" "nc ?Q1 = nc Q" by (simp_all add: scale_col_def)
  have same: "f ?Q1 k = f Q k" if "k \<noteq> j" for k
    using that by (intro dep) (simp_all add: scale_col_def)
  have IH: "nr (fold (\<lambda>j Q. scale_col Q j (f Q j)) js ?Q1) = nr ?Q1 \<and>
         nc (fold (\<lambda>j Q. scale_col Q j (f Q j)) js ?Q1) = nc ?Q1 \<and>
         (\<forall>i k. ent (fold (\<lambda>j Q. scale_col Q j (f Q j)) js ?Q1) i k =
                 (if k \<in> set js then ent ?Q1 i k / f ?Q1 k else ent ?Q1 i k))"
    using Cons.IH [of ?Q1] Cons.prems by simp
  have "j \<notin> set js" using Cons.prems by simp
  then show ?case
    using IH sh same by (auto simp: scale_col_def)
qed

lemma np_argmax_props:
  assumes "xs \<noteq> []"
  shows "np_argmax xs < length xs" "xs ! np_argmax xs = np_max xs" "\<forall>x\<in>set xs. x \<le> np_max xs"
proof -
  let ?m = "np_max xs"
  have m: "?m = Max (set xs)" using assms by (rule np_max_Max)
  then have mem: "?m \<in> set xs" using assms by (simp add: Max_in)
  show le: "\<forall>x\<in>set xs. x \<le> ?m" using m by simp
  have "takeWhile (\<lambda>x. x < ?m) xs \<noteq> xs"
    using mem by (auto simp: takeWhile_eq_all_conv)
  then show lt: "np_argmax xs < length xs"
    unfolding np_argmax_def
    by (metis length_takeWhile_le le_neq_implies_less takeWhile_eq_take take_all_iff order_refl)
  then have "\<not> xs ! np_argmax xs < ?m"
    unfolding np_argmax_def by (rule nth_length_takeWhile)
  moreover have "xs ! np_argmax xs \<le> ?m" using le lt by simp
  ultimately show "xs ! np_argmax xs = ?m" by simp
qed

lemma filter_by_index:
  "map (\<lambda>j. v0 ! j) (filter (\<lambda>j. P (v0 ! j)) [0..<length v0]) = filter P v0"
proof -
  have "filter P (map (\<lambda>j. v0 ! j) [0..<length v0]) =
        map (\<lambda>j. v0 ! j) (filter (\<lambda>j. P (v0 ! j)) [0..<length v0])"
    by (simp add: filter_map comp_def)
  then show ?thesis by (simp add: map_nth)
qed

lemma np_argsort_real_props:
  "mset (np_argsort_real xs) = mset [0..<length xs]"
  "set (np_argsort_real xs) = {..<length xs}"
  "length (np_argsort_real xs) = length xs"
  "distinct (np_argsort_real xs)"
  "sorted (map (\<lambda>i. xs ! i) (np_argsort_real xs))"
  by (simp_all add: np_argsort_real_def atLeast0LessThan sorted_sort_key)

section \<open>\<^verbatim>\<open>eigA\<close>: retained modes and modal quantities\<close>

lemma map2_map_same: "map2 f xs (map g xs) = map (\<lambda>x. f x (g x)) xs"
  by (induction xs) simp_all

lemma map_nth_sel:
  assumes "set I \<subseteq> {..<length xs}"
  shows "map (\<lambda>i. map g xs ! i) I = map (\<lambda>i. g (xs ! i)) I"
  using assms by (intro map_cong refl) auto

lemma eigA_Inr:
  assumes run: "eigA s A nq nq1 fullEV normQ = Inr (fd, z, Q, f0)"
  obtains D Q0 nq' nq1' Q3 where
    "nr A = nc A" "s A None = Some (D, Q0)"
    "eigA_dims (int (nr A)) nq nq1 = Inr (nq', nq1')"
    "eigA_modes D Q0 nq' fullEV = (fd, z, Q3, f0)"
    "if normQ = Some byMax then renorm_abs Q3 = Inr Q else Q = Q3"
proof -
  have sq: "nr A = nc A" using run by (auto simp: eigA_def Let_def split: if_splits)
  obtain nq' nq1' where dims: "eigA_dims (int (nr A)) nq nq1 = Inr (nq', nq1')"
    using run sq by (cases "eigA_dims (int (nr A)) nq nq1") (auto simp: eigA_def)
  obtain D Q0 where sol: "s A None = Some (D, Q0)"
    using run sq dims by (cases "s A None") (auto simp: eigA_def eig_None)
  obtain fd' z' Q3 f0' where modes: "eigA_modes D Q0 nq' fullEV = (fd', z', Q3, f0')"
    by (cases "eigA_modes D Q0 nq' fullEV") auto
  have "(if normQ = Some byMax then bindE (renorm_abs Q3) (\<lambda>Q'. Inr (fd', z', Q', f0'))
         else Inr (fd', z', Q3, f0')) = Inr (fd, z, Q, f0)"
    using run sq dims sol modes by (simp add: eigA_def eig_None)
  then have "fd' = fd \<and> z' = z \<and> f0' = f0 \<and>
      (if normQ = Some byMax then renorm_abs Q3 = Inr Q else Q = Q3)"
    by (auto simp: bindE_eq_Inr split: if_splits)
  with sq sol dims modes show thesis using that by metis
qed

lemma eigA_modes_props:
  assumes "eigA_modes D Q0 nq' fullEV = (fd, z, Q3, f0)"
  shows "\<exists>J. mset J = mset (filter (\<lambda>j. 0 < Im (D ! j)) [0..<length D]) \<and>
     fd = map (\<lambda>j. Im (D ! j) / (2 * pi)) J \<and>
     z = map (\<lambda>j. - Re (D ! j) / cmod (D ! j)) J \<and>
     f0 = map (\<lambda>j. cmod (D ! j) / (2 * pi)) J \<and>
     sorted f0 \<and> nc Q3 = length J \<and>
     nr Q3 = nr (if fullEV then Q0 else np_delete_rows Q0 nq' (2 * nq')) \<and>
     (\<forall>k<length J. \<forall>i. ent Q3 i k =
        ent (if fullEV then Q0 else np_delete_rows Q0 nq' (2 * nq')) i (J ! k))"
proof -
  define Ipos where "Ipos = filter (\<lambda>j. 0 < Im (D ! j)) [0..<length D]"
  define v where "v = map (\<lambda>j. D ! j) Ipos"
  define fr0 where "fr0 = map (\<lambda>w. w / (2 * pi)) (map cmod v)"
  define I where "I = np_argsort_real fr0"
  define J where "J = map (\<lambda>i. Ipos ! i) I"
  have lv: "length v = length Ipos" "length fr0 = length Ipos" by (simp_all add: v_def fr0_def)
  have Iset: "set I \<subseteq> {..<length Ipos}" "set I \<subseteq> {..<length v}"
    using np_argsort_real_props(2) [of fr0] lv by (simp_all add: I_def)
  have vI: "v ! i = D ! (Ipos ! i)" if "i \<in> set I" for i
    using that Iset by (auto simp: v_def)
  have res: "fd = map (\<lambda>i. map (\<lambda>z. Im z / (2 * pi)) v ! i) I"
    "z = map (\<lambda>i. map (\<lambda>z. - Re z / cmod z) v ! i) I"
    "f0 = map (\<lambda>i. fr0 ! i) I"
    "Q3 = take_cols (take_cols (if \<not> fullEV then np_delete_rows Q0 nq' (2 * nq') else Q0) Ipos) I"
    using assms
    by (auto simp: eigA_modes_def Let_def map2_map_same Ipos_def v_def fr0_def I_def comp_def)
  have "mset J = image_mset (\<lambda>i. Ipos ! i) (mset I)"
    by (simp add: J_def)
  also have "mset I = mset [0..<length Ipos]"
    using np_argsort_real_props(1) [of fr0] lv by (simp only: I_def)
  finally have "mset J = image_mset (\<lambda>i. Ipos ! i) (mset [0..<length Ipos])" .
  also have "\<dots> = mset (map (\<lambda>i. Ipos ! i) [0..<length Ipos])" by simp
  also have "\<dots> = mset Ipos" by (simp add: map_nth)
  finally have J: "mset J = mset (filter (\<lambda>j. 0 < Im (D ! j)) [0..<length D])"
    by (simp add: Ipos_def)
  have fd: "fd = map (\<lambda>j. Im (D ! j) / (2 * pi)) J"
    unfolding res(1) map_nth_sel [OF Iset(2)] J_def using vI by (simp add: comp_def)
  have z: "z = map (\<lambda>j. - Re (D ! j) / cmod (D ! j)) J"
    unfolding res(2) map_nth_sel [OF Iset(2)] J_def using vI by (simp add: comp_def)
  have "f0 = map (\<lambda>i. map (\<lambda>z. cmod z / (2 * pi)) v ! i) I"
    unfolding res(3) fr0_def by (simp add: comp_def)
  then have f0: "f0 = map (\<lambda>j. cmod (D ! j) / (2 * pi)) J"
    unfolding map_nth_sel [OF Iset(2)] J_def using vI by (simp add: comp_def)
  have srt: "sorted f0"
    unfolding res(3) I_def by (rule np_argsort_real_props(5))
  have Q: "nc Q3 = length J" "nr Q3 = nr (if fullEV then Q0 else np_delete_rows Q0 nq' (2 * nq'))"
    "\<forall>k<length J. \<forall>i. ent Q3 i k =
        ent (if fullEV then Q0 else np_delete_rows Q0 nq' (2 * nq')) i (J ! k)"
    by (simp_all add: res(4) take_cols_def J_def)
  show ?thesis using J fd z f0 srt Q by blast
qed

lemma renorm_abs_Inr:
  assumes "renorm_abs Q3 = Inr Q"
  shows "nr Q = nr Q3" "nc Q = nc Q3"
    "k < nc Q3 \<Longrightarrow> ent Q i k = ent Q3 i k / of_real (np_max (col_abs Q3 k))"
proof -
  let ?f = "\<lambda>Q j. complex_of_real (np_max (col_abs Q j))"
  have dep: "?f Q j = ?f Q' j" if "\<forall>i. ent Q i j = ent Q' i j" "nr Q = nr Q'" for Q Q' :: mat and j
    using that by (simp add: col_abs_def)
  have Q: "Q = fold (\<lambda>j Q. scale_col Q j (?f Q j)) [0..<nc Q3] Q3"
    using assms by (simp add: renorm_abs_def split: if_splits)
  note F = fold_scale_cols [of ?f "[0..<nc Q3]" Q3, OF dep, folded Q]
  show "nr Q = nr Q3" "nc Q = nc Q3" using F by simp_all
  show "k < nc Q3 \<Longrightarrow> ent Q i k = ent Q3 i k / of_real (np_max (col_abs Q3 k))"
    using F by simp
qed

text \<open>
  C7. For a result \<open>(freq_d, zeta, Q, freq_0)\<close> of \<^verbatim>\<open>eigA\<close> there is a list \<open>J\<close> of indices into
  the solver's eigenvalues \<open>D\<close>, a reordering of the indices with a positive imaginary
  part, such that entry \<open>k\<close> of each output comes from the eigenvalue \<open>\<lambda> = D[J[k]]\<close>:
  \<^verbatim>\<open>freq_d\<close> is \<open>Im \<lambda> / 2\<pi>\<close>, \<^verbatim>\<open>zeta\<close> is \<open>- Re \<lambda> / |\<lambda>|\<close>, \<^verbatim>\<open>freq_0\<close> is \<open>|\<lambda>| / 2\<pi>\<close>, and column \<open>k\<close> of
  \<open>Q\<close> is column \<open>J[k]\<close> of the solver's eigenvectors (without the rows of the velocities
  unless \<^verbatim>\<open>fullEV\<close>, divided by its largest absolute value under \<^verbatim>\<open>byMax\<close>). The natural
  frequencies \<^verbatim>\<open>freq_0\<close> are in ascending order.
\<close>

theorem eigA_modal_quantities:
  assumes run: "eigA s A nq nq1 fullEV normQ = Inr (fd, z, Q, f0)"
    and sol: "s A None = Some (D, Q0)"
  shows "\<exists>J nq' nq1'.
     mset J = mset (filter (\<lambda>j. 0 < Im (D ! j)) [0..<length D]) \<and>
     fd = map (\<lambda>j. Im (D ! j) / (2 * pi)) J \<and>
     z = map (\<lambda>j. - Re (D ! j) / cmod (D ! j)) J \<and>
     f0 = map (\<lambda>j. cmod (D ! j) / (2 * pi)) J \<and>
     sorted f0 \<and> nc Q = length J \<and>
     eigA_dims (int (nr A)) nq nq1 = Inr (nq', nq1') \<and>
     (\<forall>k<length J. \<forall>i.
        ent Q i k =
        ent (if fullEV then Q0 else np_delete_rows Q0 nq' (2 * nq')) i (J ! k) /
        (if normQ = Some byMax
         then of_real (np_max (map (\<lambda>i. cmod (ent (if fullEV then Q0
                else np_delete_rows Q0 nq' (2 * nq')) i (J ! k)))
                [0..<nr (if fullEV then Q0 else np_delete_rows Q0 nq' (2 * nq'))]))
         else 1))"
proof -
  obtain D' Q0' nq' nq1' Q3 where sol': "s A None = Some (D', Q0')"
    and dims: "eigA_dims (int (nr A)) nq nq1 = Inr (nq', nq1')"
    and modes: "eigA_modes D' Q0' nq' fullEV = (fd, z, Q3, f0)"
    and norm: "if normQ = Some byMax then renorm_abs Q3 = Inr Q else Q = Q3"
    using eigA_Inr [OF run] by metis
  have [simp]: "D' = D" "Q0' = Q0" using sol sol' by simp_all
  let ?Q1 = "if fullEV then Q0 else np_delete_rows Q0 nq' (2 * nq')"
  obtain J where J: "mset J = mset (filter (\<lambda>j. 0 < Im (D ! j)) [0..<length D])"
    and out: "fd = map (\<lambda>j. Im (D ! j) / (2 * pi)) J"
      "z = map (\<lambda>j. - Re (D ! j) / cmod (D ! j)) J"
      "f0 = map (\<lambda>j. cmod (D ! j) / (2 * pi)) J" "sorted f0"
    and Q3: "nc Q3 = length J" "nr Q3 = nr ?Q1" "\<forall>k<length J. \<forall>i. ent Q3 i k = ent ?Q1 i (J ! k)"
    using eigA_modes_props [OF modes] by auto
  have ncQ: "nc Q = length J"
    using norm Q3(1) renorm_abs_Inr(2) [of Q3 Q] by (auto split: if_splits)
  have ent: "ent Q i k = ent ?Q1 i (J ! k) /
        (if normQ = Some byMax
         then of_real (np_max (map (\<lambda>i. cmod (ent ?Q1 i (J ! k))) [0..<nr ?Q1]))
         else 1)" if k: "k < length J" for i k
  proof (cases "normQ = Some byMax")
    case False
    with norm Q3(3) k show ?thesis by simp
  next
    case True
    then have r: "renorm_abs Q3 = Inr Q" using norm by simp
    have "col_abs Q3 k = map (\<lambda>i. cmod (ent ?Q1 i (J ! k))) [0..<nr ?Q1]"
      using Q3 k by (simp add: col_abs_def)
    then show ?thesis
      using renorm_abs_Inr(3) [OF r, of k i] Q3 k True by simp
  qed
  show ?thesis
    using J out ncQ dims ent by blast
qed

lemma conj_pairs_count:
  assumes "\<forall>p\<in>set ps. Im p \<noteq> 0"
  shows "length (filter (\<lambda>v. 0 < Im v) (concat (map (\<lambda>p. [p, cnj p]) ps))) = length ps"
  using assms by (induction ps) auto

lemma positive_imag_count:
  assumes D: "mset D = mset (concat (map (\<lambda>p. [p, cnj p]) ps)) + mset rs"
    and ps: "\<forall>p\<in>set ps. Im p \<noteq> 0" and rs: "\<forall>r\<in>set rs. Im r = 0"
  shows "length (filter (\<lambda>v. 0 < Im v) D) = length ps"
proof -
  let ?P = "\<lambda>v::complex. 0 < Im v"
  have "length (filter ?P D) = size (filter_mset ?P (mset D))"
    by (simp flip: mset_filter)
  also have "\<dots> = size (filter_mset ?P (mset (concat (map (\<lambda>p. [p, cnj p]) ps)))) +
      size (filter_mset ?P (mset rs))"
    by (simp add: D)
  also have "size (filter_mset ?P (mset rs)) = 0"
    using rs by (auto simp: filter_mset_eq_conv) 
  also have "size (filter_mset ?P (mset (concat (map (\<lambda>p. [p, cnj p]) ps)))) =
      length (filter ?P (concat (map (\<lambda>p. [p, cnj p]) ps)))"
    by (simp flip: mset_filter)
  finally show ?thesis using conj_pairs_count [OF ps] by simp
qed

text \<open>
  C5. If the eigenvalues that the solver returns for the state matrix are \<open>k\<close> pairs of a
  non-real number and its conjugate together with real numbers, then \<^verbatim>\<open>eigA\<close> returns
  exactly \<open>k\<close> modes, and they are exactly the eigenvalues with a strictly positive
  imaginary part: the returned frequencies are those of these eigenvalues.
\<close>

theorem eigA_conjugate_pairs:
  assumes run: "eigA s A nq nq1 fullEV normQ = Inr (fd, z, Q, f0)"
    and sol: "s A None = Some (D, Q0)"
    and D: "mset D = mset (concat (map (\<lambda>p. [p, cnj p]) ps)) + mset rs"
    and ps: "\<forall>p\<in>set ps. Im p \<noteq> 0" and rs: "\<forall>r\<in>set rs. Im r = 0"
  shows "length fd = length ps \<and> length z = length ps \<and> nc Q = length ps \<and>
     length f0 = length ps \<and>
     mset fd = image_mset (\<lambda>v. Im v / (2 * pi)) (filter_mset (\<lambda>v. 0 < Im v) (mset D)) \<and>
     mset f0 = image_mset (\<lambda>v. cmod v / (2 * pi)) (filter_mset (\<lambda>v. 0 < Im v) (mset D))"
proof -
  obtain D' Q0' nq' nq1' Q3 where sol': "s A None = Some (D', Q0')"
    and modes: "eigA_modes D' Q0' nq' fullEV = (fd, z, Q3, f0)"
    and norm: "if normQ = Some byMax then renorm_abs Q3 = Inr Q else Q = Q3"
    using eigA_Inr [OF run] by metis
  have [simp]: "D' = D" "Q0' = Q0" using sol sol' by simp_all
  let ?Ipos = "filter (\<lambda>j. 0 < Im (D ! j)) [0..<length D]"
  obtain J where J: "mset J = mset ?Ipos"
    and out: "fd = map (\<lambda>j. Im (D ! j) / (2 * pi)) J"
      "z = map (\<lambda>j. - Re (D ! j) / cmod (D ! j)) J"
      "f0 = map (\<lambda>j. cmod (D ! j) / (2 * pi)) J"
    and Q3: "nc Q3 = length J"
    using eigA_modes_props [OF modes] by auto
  have sel: "mset (map (\<lambda>j. D ! j) J) = filter_mset (\<lambda>v. 0 < Im v) (mset D)"
  proof -
    have "mset (map (\<lambda>j. D ! j) J) = mset (map (\<lambda>j. D ! j) ?Ipos)"
      using J by (metis mset_map)
    also have "\<dots> = mset (filter (\<lambda>v. 0 < Im v) D)"
      using filter_by_index [of D "\<lambda>v. 0 < Im v"] by simp
    finally show ?thesis by simp
  qed
  have "length J = length ?Ipos" using J by (rule mset_eq_length)
  also have "\<dots> = length (map (\<lambda>j. D ! j) ?Ipos)" by simp
  also have "\<dots> = length (filter (\<lambda>v. 0 < Im v) D)"
    using filter_by_index [of D "\<lambda>v. 0 < Im v"] by simp
  also have "\<dots> = length ps" by (rule positive_imag_count [OF D ps rs])
  finally have lJ: "length J = length ps" .
  have ncQ: "nc Q = length J"
    using norm Q3 renorm_abs_Inr(2) [of Q3 Q] by (auto split: if_splits)
  have "mset fd = image_mset (\<lambda>v. Im v / (2 * pi)) (mset (map (\<lambda>j. D ! j) J))"
    by (simp add: out(1) comp_def image_mset.compositionality)
  moreover have "mset f0 = image_mset (\<lambda>v. cmod v / (2 * pi)) (mset (map (\<lambda>j. D ! j) J))"
    by (simp add: out(3) comp_def image_mset.compositionality)
  ultimately show ?thesis using lJ ncQ sel by (simp add: out)
qed

end
